theory Spec2Isabelle
  imports Main
begin

section \<open>PicoServoTester: the poll loops of main.py\<close>

text \<open>
  The firmware is a single thread that polls two buttons and the counter of a rotary
  encoder, and writes to a relay pin, three PWM channels and a text display.
  The model threads one record through every function. It holds the module's globals,
  the levels last written to the output pins, the log of the effects of the functions and
  loops below in program order, and what the inputs will answer: one list of samples per input device, a read taking
  the head of its list. A read from an empty list has no answer: the function returns
  \<open>None\<close>, which stands for "the recorded input ends before the function returns".
\<close>

subsection \<open>Constants of the module\<close>

definition FREQUENCY_MIN :: int where "FREQUENCY_MIN = 10"
definition FREQUENCY_MAX :: int where "FREQUENCY_MAX = 200"
definition SERVO_MIN_MIN :: int where "SERVO_MIN_MIN = 0"
definition SERVO_MIN_MAX :: int where "SERVO_MIN_MAX = 5000"
definition SERVO_MAX_MIN :: int where "SERVO_MAX_MIN = 5001"
definition SERVO_MAX_MAX :: int where "SERVO_MAX_MAX = 10000"
definition PWM_ON :: int where "PWM_ON = 2000"
definition PWM_OFF :: int where "PWM_OFF = 0"

subsection \<open>Effects and the system record\<close>

text \<open>
  One constructor per call that leaves the program. The four screen functions only call
  the display driver, so each is logged as one event carrying the values it prints.
  \<open>update_servo\<close> computes its duty in floating point, which is not modelled: the event
  \<open>Servo_duty\<close> records the three integers the computation reads
  (\<open>g_percent\<close>, \<open>g_servo_min\<close>, \<open>g_servo_max\<close>), not its result.
\<close>

datatype effect =
    Sleep_ms int
  | Relay_value int
  | Servo_freq int
  | Servo_duty int int int
  | Blue_duty_u16 int
  | Green_duty_u16 int
  | Power_duty_u16 int
  | Show_test_details bool int
  | Show_one_setting string int int int
  | Show_settings_menu int int int int
  | Show_main_menu int
  | Show_help

datatype button = Button_yellow | Button_blue

record sys =
  g_frequency :: int
  g_servo_min :: int
  g_servo_max :: int
  g_powered :: bool
  g_percent :: int
  relay :: int
  servo_freq :: int
  pwm_blue :: int
  pwm_green :: int
  log :: "effect list"
  yellow_in :: "int list"
  blue_in :: "int list"
  rotary_in :: "int list"

definition emit :: "effect \<Rightarrow> sys \<Rightarrow> sys" where
  "emit e s = s\<lparr>log := log s @ [e]\<rparr>"

definition sleep_ms :: "int \<Rightarrow> sys \<Rightarrow> sys" where
  "sleep_ms n s = emit (Sleep_ms n) s"

definition relay_value :: "int \<Rightarrow> sys \<Rightarrow> sys" where
  "relay_value v s = emit (Relay_value v) (s\<lparr>relay := v\<rparr>)"

definition pwm_servo_freq :: "int \<Rightarrow> sys \<Rightarrow> sys" where
  "pwm_servo_freq f s = emit (Servo_freq f) (s\<lparr>servo_freq := f\<rparr>)"

definition pwm_blue_duty_u16 :: "int \<Rightarrow> sys \<Rightarrow> sys" where
  "pwm_blue_duty_u16 d s = emit (Blue_duty_u16 d) (s\<lparr>pwm_blue := d\<rparr>)"

definition pwm_green_duty_u16 :: "int \<Rightarrow> sys \<Rightarrow> sys" where
  "pwm_green_duty_u16 d s = emit (Green_duty_u16 d) (s\<lparr>pwm_green := d\<rparr>)"

subsection \<open>clamp\<close>

text \<open>\<^verbatim>\<open>def clamp(val, val_min, val_max): return max(val_min, min(val, val_max))\<close>\<close>

definition clamp :: "int \<Rightarrow> int \<Rightarrow> int \<Rightarrow> int" where
  "clamp val val_min val_max = max val_min (min val val_max)"

subsection \<open>Inputs: pins and the encoder counter\<close>

definition samples :: "button \<Rightarrow> sys \<Rightarrow> int list" where
  "samples b s = (case b of Button_yellow \<Rightarrow> yellow_in s | Button_blue \<Rightarrow> blue_in s)"

definition set_samples :: "button \<Rightarrow> int list \<Rightarrow> sys \<Rightarrow> sys" where
  "set_samples b xs s =
     (case b of Button_yellow \<Rightarrow> s\<lparr>yellow_in := xs\<rparr> | Button_blue \<Rightarrow> s\<lparr>blue_in := xs\<rparr>)"

text \<open>\<open>b.value()\<close>: the next sample of the pin, 0 while the button is held down.\<close>

definition pin_value :: "button \<Rightarrow> sys \<Rightarrow> (int \<times> sys) option" where
  "pin_value b s =
     (case samples b s of [] \<Rightarrow> None | v # vs \<Rightarrow> Some (v, set_samples b vs s))"

text \<open>\<open>r.value()\<close>: a snapshot of the unbounded counter kept by the interrupt handler.\<close>

definition r_value :: "sys \<Rightarrow> (int \<times> sys) option" where
  "r_value s =
     (case rotary_in s of [] \<Rightarrow> None | v # vs \<Rightarrow> Some (v, s\<lparr>rotary_in := vs\<rparr>))"

text \<open>
  The inner loop of \<open>button_pressed\<close>, \<^verbatim>\<open>while b.value() == 0: sleep_ms(50)\<close>,
  over the samples still to come: the number of sleeps and the samples left once a
  sample other than 0 has been read.
\<close>

fun wait_release :: "int list \<Rightarrow> (nat \<times> int list) option" where
  "wait_release [] = None"
| "wait_release (v # vs) =
     (if v = 0
      then (case wait_release vs of None \<Rightarrow> None | Some (n, rest) \<Rightarrow> Some (Suc n, rest))
      else Some (0, vs))"

fun sleeps :: "nat \<Rightarrow> sys \<Rightarrow> sys" where
  "sleeps 0 s = s"
| "sleeps (Suc n) s = sleeps n (sleep_ms 50 s)"

definition button_pressed :: "button \<Rightarrow> sys \<Rightarrow> (bool \<times> sys) option" where
  "button_pressed b s =
     (case pin_value b s of
        None \<Rightarrow> None
      | Some (v, s1) \<Rightarrow>
          if v = 0
          then (case wait_release (samples b s1) of
                  None \<Rightarrow> None
                | Some (n, rest) \<Rightarrow> Some (True, sleeps n (set_samples b rest s1)))
          else Some (False, s1))"

subsection \<open>Screens and the servo\<close>

definition show_test_details :: "sys \<Rightarrow> sys" where
  "show_test_details s = emit (Show_test_details (g_powered s) (g_percent s)) s"

definition show_one_setting :: "string \<Rightarrow> int \<Rightarrow> int \<Rightarrow> int \<Rightarrow> sys \<Rightarrow> sys" where
  "show_one_setting setting_name setting_min setting_max v s =
     emit (Show_one_setting setting_name setting_min setting_max v) s"

definition show_settings_menu :: "int \<Rightarrow> sys \<Rightarrow> sys" where
  "show_settings_menu which s =
     emit (Show_settings_menu which (g_frequency s) (g_servo_min s) (g_servo_max s)) s"

definition show_main_menu :: "int \<Rightarrow> sys \<Rightarrow> sys" where
  "show_main_menu which s = emit (Show_main_menu which) s"

definition update_servo :: "sys \<Rightarrow> sys" where
  "update_servo s = emit (Servo_duty (g_percent s) (g_servo_min s) (g_servo_max s)) s"

subsection \<open>update\_one\_setting\<close>

text \<open>
  One pass through the body of \<^verbatim>\<open>while True:\<close> in \<open>update_one_setting\<close>, from the loop
  variables \<open>r_val_old\<close> and \<open>value\<close>: either the function returns, or the loop goes
  round again with new loop variables. The body does not sleep.
\<close>

datatype edit_step = Return int | Again int int

definition edit_iter ::
  "string \<Rightarrow> int \<Rightarrow> int \<Rightarrow> int \<Rightarrow> int \<Rightarrow> int \<Rightarrow> sys \<Rightarrow> (edit_step \<times> sys) option" where
  "edit_iter setting_name setting_min setting_max original_value r_val_old val s =
     (case button_pressed Button_yellow s of
        None \<Rightarrow> None
      | Some (y, s1) \<Rightarrow>
          if y then Some (Return original_value, s1)
          else
            (case button_pressed Button_blue s1 of
               None \<Rightarrow> None
             | Some (b, s2) \<Rightarrow>
                 if b then Some (Return val, s2)
                 else
                   (case r_value s2 of
                      None \<Rightarrow> None
                    | Some (r_val_new, s3) \<Rightarrow>
                        if r_val_old \<noteq> r_val_new
                        then
                          (let diff = r_val_old - r_val_new;
                               val' = clamp (val + diff) setting_min setting_max
                           in Some (Again r_val_new val',
                                    show_one_setting setting_name setting_min setting_max val' s3))
                        else Some (Again r_val_old val, s3))))"

lemma wait_release_shorter:
  "wait_release xs = Some (n, rest) \<Longrightarrow> length rest < length xs"
proof (induction xs arbitrary: n)
  case Nil
  then show ?case by simp
next
  case (Cons v vs)
  then show ?case
    by (fastforce split: if_splits option.splits)
qed

lemma sleeps_log: "sleeps n s = s\<lparr>log := log s @ replicate n (Sleep_ms 50)\<rparr>"
  by (induction n arbitrary: s)
     (simp_all add: sleep_ms_def emit_def replicate_append_same)

lemma button_pressed_yellow:
  assumes "button_pressed Button_yellow s = Some (p, s')"
  shows "length (yellow_in s') < length (yellow_in s)"
    and "blue_in s' = blue_in s" and "rotary_in s' = rotary_in s"
  using assms
  by (auto simp: button_pressed_def pin_value_def samples_def set_samples_def sleeps_log
           split: list.splits if_splits option.splits dest!: wait_release_shorter)

lemma button_pressed_blue:
  assumes "button_pressed Button_blue s = Some (p, s')"
  shows "length (blue_in s') < length (blue_in s)"
    and "yellow_in s' = yellow_in s" and "rotary_in s' = rotary_in s"
  using assms
  by (auto simp: button_pressed_def pin_value_def samples_def set_samples_def sleeps_log
           split: list.splits if_splits option.splits dest!: wait_release_shorter)

lemma r_value_inputs:
  assumes "r_value s = Some (v, s')"
  shows "yellow_in s' = yellow_in s" and "blue_in s' = blue_in s"
    and "length (rotary_in s') < length (rotary_in s)"
  using assms by (auto simp: r_value_def split: list.splits)

lemma edit_iter_yellow:
  assumes "edit_iter nm lo hi orig r v s = Some (st, s')"
  shows "length (yellow_in s') < length (yellow_in s)"
proof -
  obtain y s1 where y: "button_pressed Button_yellow s = Some (y, s1)"
    using assms by (auto simp: edit_iter_def split: option.splits)
  note y1 = button_pressed_yellow(1) [OF y]
  show ?thesis
  proof (cases y)
    case True
    with assms y y1 show ?thesis by (simp add: edit_iter_def)
  next
    case False
    then obtain b s2 where b: "button_pressed Button_blue s1 = Some (b, s2)"
      using assms y by (auto simp: edit_iter_def split: option.splits)
    note b2 = button_pressed_blue(2) [OF b]
    show ?thesis
    proof (cases b)
      case True
      with assms y \<open>\<not> y\<close> b y1 b2 show ?thesis by (simp add: edit_iter_def)
    next
      case nb: False
      then obtain rn s3 where r: "r_value s2 = Some (rn, s3)"
        using assms y \<open>\<not> y\<close> b by (auto simp: edit_iter_def split: option.splits)
      from assms y \<open>\<not> y\<close> b nb r y1 b2 r_value_inputs(1) [OF r] show ?thesis
        by (auto simp: edit_iter_def Let_def show_one_setting_def emit_def split: if_splits)
    qed
  qed
qed

function edit_loop ::
  "string \<Rightarrow> int \<Rightarrow> int \<Rightarrow> int \<Rightarrow> int \<Rightarrow> int \<Rightarrow> sys \<Rightarrow> (int \<times> sys) option" where
  "edit_loop setting_name setting_min setting_max original_value r_val_old val s =
     (case edit_iter setting_name setting_min setting_max original_value r_val_old val s of
        None \<Rightarrow> None
      | Some (Return v, s') \<Rightarrow> Some (v, s')
      | Some (Again r_val_old' val', s') \<Rightarrow>
          edit_loop setting_name setting_min setting_max original_value r_val_old' val' s')"
  by pat_completeness auto
termination
  by (relation "measure (\<lambda>(nm, lo, hi, orig, r, v, s). length (yellow_in s))")
     (auto dest: edit_iter_yellow)

definition update_one_setting ::
  "string \<Rightarrow> int \<Rightarrow> int \<Rightarrow> int \<Rightarrow> sys \<Rightarrow> (int \<times> sys) option" where
  "update_one_setting setting_name setting_min setting_max original_value s =
     (case r_value s of
        None \<Rightarrow> None
      | Some (r_val_old, s1) \<Rightarrow>
          edit_loop setting_name setting_min setting_max original_value r_val_old original_value
            (show_one_setting setting_name setting_min setting_max original_value s1))"

definition set_frequency :: "sys \<Rightarrow> sys option" where
  "set_frequency s =
     (case update_one_setting ''frequency'' FREQUENCY_MIN FREQUENCY_MAX (g_frequency s) s of
        None \<Rightarrow> None
      | Some (v, s') \<Rightarrow> Some (s'\<lparr>g_frequency := v\<rparr>))"

definition set_min :: "sys \<Rightarrow> sys option" where
  "set_min s =
     (case update_one_setting ''servo min'' SERVO_MIN_MIN SERVO_MIN_MAX (g_servo_min s) s of
        None \<Rightarrow> None
      | Some (v, s') \<Rightarrow> Some (s'\<lparr>g_servo_min := v\<rparr>))"

definition set_max :: "sys \<Rightarrow> sys option" where
  "set_max s =
     (case update_one_setting ''servo max'' SERVO_MAX_MIN SERVO_MAX_MAX (g_servo_max s) s of
        None \<Rightarrow> None
      | Some (v, s') \<Rightarrow> Some (s'\<lparr>g_servo_max := v\<rparr>))"

subsection \<open>run\_test\<close>

text \<open>
  The statements of \<open>run_test\<close> before its loop. The source's comment on the relay write is
  "Disconnect the servo initially": level 1 on the relay pin disconnects the servo.
\<close>

definition test_entry :: "sys \<Rightarrow> sys" where
  "test_entry s =
     update_servo (show_test_details (pwm_green_duty_u16 PWM_OFF (pwm_blue_duty_u16 PWM_ON
       (relay_value 1 ((pwm_servo_freq (g_frequency s) s)\<lparr>g_percent := 50, g_powered := False\<rparr>)))))"

text \<open>The body of \<^verbatim>\<open>if button_pressed(button_blue):\<close> in the test loop.\<close>

definition toggle_power :: "sys \<Rightarrow> sys" where
  "toggle_power s =
     (let s1 = s\<lparr>g_powered := \<not> g_powered s\<rparr>;
          s2 = (if g_powered s1
                then relay_value 0 (pwm_green_duty_u16 PWM_ON (pwm_blue_duty_u16 PWM_OFF s1))
                else relay_value 1 (pwm_green_duty_u16 PWM_OFF (pwm_blue_duty_u16 PWM_ON s1)))
      in update_servo (show_test_details s2))"

text \<open>The body of \<^verbatim>\<open>if r_val_old != r_val_new:\<close> in the test loop, after \<open>diff\<close> is computed.\<close>

definition turn_percent :: "int \<Rightarrow> sys \<Rightarrow> sys" where
  "turn_percent diff s =
     (let s1 = s\<lparr>g_percent := g_percent s + diff\<rparr>;
          s2 = (if g_percent s1 < 0 then s1\<lparr>g_percent := 0\<rparr> else s1);
          s3 = (if g_percent s2 > 100 then s2\<lparr>g_percent := 100\<rparr> else s2)
      in update_servo (show_test_details s3))"

text \<open>
  One pass through the body of \<^verbatim>\<open>while keep_going:\<close>. A press of the yellow button only
  clears \<open>keep_going\<close>: the rest of the body still runs before the loop ends.
\<close>

definition test_iter :: "int \<Rightarrow> sys \<Rightarrow> (bool \<times> int \<times> sys) option" where
  "test_iter r_val_old s =
     (case button_pressed Button_yellow (sleep_ms 50 s) of
        None \<Rightarrow> None
      | Some (y, s1) \<Rightarrow>
          (case button_pressed Button_blue (if y then pwm_green_duty_u16 PWM_OFF s1 else s1) of
             None \<Rightarrow> None
           | Some (b, s2) \<Rightarrow>
               (case r_value (if b then toggle_power s2 else s2) of
                  None \<Rightarrow> None
                | Some (r_val_new, s3) \<Rightarrow>
                    if r_val_old \<noteq> r_val_new
                    then Some (\<not> y, r_val_new, turn_percent (r_val_old - r_val_new) s3)
                    else Some (\<not> y, r_val_old, s3))))"

lemma test_iter_yellow:
  assumes "test_iter r s = Some (k, r', s')"
  shows "length (yellow_in s') < length (yellow_in s)"
proof -
  obtain y s1 where y: "button_pressed Button_yellow (sleep_ms 50 s) = Some (y, s1)"
    using assms by (auto simp: test_iter_def split: option.splits)
  have y1: "length (yellow_in s1) < length (yellow_in s)"
    using button_pressed_yellow(1) [OF y] by (simp add: sleep_ms_def emit_def)
  define s1' where "s1' = (if y then pwm_green_duty_u16 PWM_OFF s1 else s1)"
  have y1': "yellow_in s1' = yellow_in s1"
    by (simp add: s1'_def pwm_green_duty_u16_def emit_def)
  obtain b s2 where b: "button_pressed Button_blue s1' = Some (b, s2)"
    using assms y by (auto simp: test_iter_def s1'_def split: option.splits)
  define s2' where "s2' = (if b then toggle_power s2 else s2)"
  have y2': "yellow_in s2' = yellow_in s2"
    by (simp add: s2'_def toggle_power_def Let_def update_servo_def show_test_details_def
          relay_value_def pwm_green_duty_u16_def pwm_blue_duty_u16_def emit_def)
  obtain rn s3 where r: "r_value s2' = Some (rn, s3)"
    using assms y b by (auto simp: test_iter_def s1'_def s2'_def split: option.splits)
  have "yellow_in s' = yellow_in s3"
    using assms y b r
    by (auto simp: test_iter_def s1'_def [symmetric] s2'_def [symmetric] turn_percent_def
          Let_def update_servo_def show_test_details_def emit_def split: if_splits)
  with y1 y1' y2' button_pressed_blue(2) [OF b] r_value_inputs(1) [OF r]
  show ?thesis by simp
qed

function test_loop :: "int \<Rightarrow> sys \<Rightarrow> sys option" where
  "test_loop r_val_old s =
     (case test_iter r_val_old s of
        None \<Rightarrow> None
      | Some (keep_going, r_val_old', s') \<Rightarrow>
          if keep_going then test_loop r_val_old' s' else Some s')"
  by pat_completeness auto
termination
  by (relation "measure (\<lambda>(r, s). length (yellow_in s))") (auto dest: test_iter_yellow)

text \<open>The statements of \<open>run_test\<close> after its loop.\<close>

definition test_exit :: "sys \<Rightarrow> sys" where
  "test_exit s =
     relay_value 1 ((pwm_green_duty_u16 PWM_OFF (pwm_blue_duty_u16 PWM_OFF s))\<lparr>g_powered := False\<rparr>)"

definition run_test :: "sys \<Rightarrow> sys option" where
  "run_test s =
     (case r_value (test_entry s) of
        None \<Rightarrow> None
      | Some (r_val_old, s1) \<Rightarrow>
          (case test_loop r_val_old s1 of None \<Rightarrow> None | Some s2 \<Rightarrow> Some (test_exit s2)))"

subsection \<open>settings\<close>

lemma edit_loop_yellow:
  "edit_loop nm lo hi orig r v s = Some (res, s') \<Longrightarrow> length (yellow_in s') < length (yellow_in s)"
proof (induction nm lo hi orig r v s rule: edit_loop.induct)
  case (1 nm lo hi orig r v s)
  from "1.prems" obtain st s1 where it: "edit_iter nm lo hi orig r v s = Some (st, s1)"
    by (subst (asm) edit_loop.simps) (auto split: option.splits)
  note lt = edit_iter_yellow [OF it]
  show ?case
  proof (cases st)
    case (Return x)
    with "1.prems" it lt show ?thesis
      by (subst (asm) edit_loop.simps) simp
  next
    case (Again r' v')
    with "1.prems" it have "edit_loop nm lo hi orig r' v' s1 = Some (res, s')"
      by (subst (asm) edit_loop.simps) simp
    from "1.IH" [OF it refl Again this] lt show ?thesis by simp
  qed
qed

lemma update_one_setting_yellow:
  assumes "update_one_setting nm lo hi orig s = Some (res, s')"
  shows "length (yellow_in s') < length (yellow_in s)"
proof -
  from assms obtain r s1 where r: "r_value s = Some (r, s1)"
    and l: "edit_loop nm lo hi orig r orig (show_one_setting nm lo hi orig s1) = Some (res, s')"
    by (auto simp: update_one_setting_def split: option.splits)
  from edit_loop_yellow [OF l] r_value_inputs(1) [OF r] show ?thesis
    by (simp add: show_one_setting_def emit_def)
qed

text \<open>The \<^verbatim>\<open>if which == 0: ... elif which == 1: ... else: ...\<close> of the settings menu.\<close>

definition edit_selected :: "int \<Rightarrow> sys \<Rightarrow> sys option" where
  "edit_selected which s =
     (if which = 0 then set_frequency s else if which = 1 then set_min s else set_max s)"

lemma edit_selected_yellow:
  "edit_selected which s = Some s' \<Longrightarrow> length (yellow_in s') < length (yellow_in s)"
  by (auto simp: edit_selected_def set_frequency_def set_min_def set_max_def
           split: if_splits option.splits dest: update_one_setting_yellow)

definition settings_iter :: "int \<Rightarrow> int \<Rightarrow> sys \<Rightarrow> (bool \<times> int \<times> int \<times> sys) option" where
  "settings_iter r_val_old which s =
     (case button_pressed Button_yellow (sleep_ms 50 s) of
        None \<Rightarrow> None
      | Some (y, s1) \<Rightarrow>
          (case button_pressed Button_blue s1 of
             None \<Rightarrow> None
           | Some (b, s2) \<Rightarrow>
               (case (if b
                      then (case edit_selected which s2 of
                              None \<Rightarrow> None
                            | Some s3 \<Rightarrow> Some (show_settings_menu which s3))
                      else Some s2) of
                  None \<Rightarrow> None
                | Some s4 \<Rightarrow>
                    (case r_value s4 of
                       None \<Rightarrow> None
                     | Some (r_val_new, s5) \<Rightarrow>
                         if r_val_old \<noteq> r_val_new
                         then
                           (let diff = r_val_old - r_val_new;
                                which' = clamp (which + diff) 0 2
                            in Some (\<not> y, r_val_new, which', show_settings_menu which' s5))
                         else Some (\<not> y, r_val_old, which, s5)))))"

lemma settings_iter_yellow:
  assumes "settings_iter r w s = Some (k, r', w', s')"
  shows "length (yellow_in s') < length (yellow_in s)"
proof -
  obtain y s1 where y: "button_pressed Button_yellow (sleep_ms 50 s) = Some (y, s1)"
    using assms by (auto simp: settings_iter_def split: option.splits)
  have y1: "length (yellow_in s1) < length (yellow_in s)"
    using button_pressed_yellow(1) [OF y] by (simp add: sleep_ms_def emit_def)
  obtain b s2 where b: "button_pressed Button_blue s1 = Some (b, s2)"
    using assms y by (auto simp: settings_iter_def split: option.splits)
  obtain s4 where s4: "(if b then (case edit_selected w s2 of None \<Rightarrow> None
                          | Some s3 \<Rightarrow> Some (show_settings_menu w s3))
                        else Some s2) = Some s4"
    using assms y b by (auto simp: settings_iter_def split: option.splits)
  have y4: "length (yellow_in s4) \<le> length (yellow_in s2)"
    using s4
    by (auto simp: show_settings_menu_def emit_def split: if_splits option.splits
             dest: edit_selected_yellow)
  obtain rn s5 where r: "r_value s4 = Some (rn, s5)"
    using assms y b s4 by (auto simp: settings_iter_def split: option.splits)
  have "yellow_in s' = yellow_in s5"
    using assms y b s4 r
    by (auto simp: settings_iter_def Let_def show_settings_menu_def emit_def split: if_splits)
  with y1 y4 button_pressed_blue(2) [OF b] r_value_inputs(1) [OF r]
  show ?thesis by simp
qed

text \<open>The loop \<^verbatim>\<open>while keep_going:\<close> of \<open>settings\<close>; it returns the cursor it ended with.\<close>

function settings_loop :: "int \<Rightarrow> int \<Rightarrow> sys \<Rightarrow> (int \<times> sys) option" where
  "settings_loop r_val_old which s =
     (case settings_iter r_val_old which s of
        None \<Rightarrow> None
      | Some (keep_going, r_val_old', which', s') \<Rightarrow>
          if keep_going then settings_loop r_val_old' which' s' else Some (which', s'))"
  by pat_completeness auto
termination
  by (relation "measure (\<lambda>(r, w, s). length (yellow_in s))") (auto dest: settings_iter_yellow)

definition settings :: "sys \<Rightarrow> sys option" where
  "settings s =
     (case r_value s of
        None \<Rightarrow> None
      | Some (r_val_old, s1) \<Rightarrow>
          (case settings_loop r_val_old 0 (show_settings_menu 0 s1) of
             None \<Rightarrow> None
           | Some (which, s2) \<Rightarrow> Some s2))"

subsection \<open>The main menu\<close>

text \<open>The help screen: \<^verbatim>\<open>while not button_pressed(button_yellow): sleep_ms(50)\<close>.\<close>

function help_wait :: "sys \<Rightarrow> sys option" where
  "help_wait s =
     (case button_pressed Button_yellow s of
        None \<Rightarrow> None
      | Some (y, s') \<Rightarrow> if y then Some s' else help_wait (sleep_ms 50 s'))"
  by pat_completeness auto
termination
  by (relation "measure (\<lambda>s. length (yellow_in s))")
     (auto simp: sleep_ms_def emit_def dest: button_pressed_yellow(1))

definition help_screen :: "sys \<Rightarrow> sys option" where
  "help_screen s = help_wait (emit Show_help s)"

text \<open>The \<^verbatim>\<open>if which == 0: ... elif which == 1: ... else: ...\<close> of the main menu.\<close>

definition enter_selected :: "int \<Rightarrow> sys \<Rightarrow> sys option" where
  "enter_selected which s =
     (if which = 0 then settings s else if which = 1 then run_test s else help_screen s)"

text \<open>
  One pass through the body of the module's final \<^verbatim>\<open>while True:\<close>, from the loop variables
  \<open>r_val_old\<close> and \<open>which\<close>.
\<close>

definition main_iter :: "int \<Rightarrow> int \<Rightarrow> sys \<Rightarrow> (int \<times> int \<times> sys) option" where
  "main_iter r_val_old which s =
     (case button_pressed Button_blue
             (pwm_blue_duty_u16 PWM_OFF (pwm_green_duty_u16 PWM_OFF (sleep_ms 50 s))) of
        None \<Rightarrow> None
      | Some (b, s1) \<Rightarrow>
          (case (if b
                 then (case enter_selected which s1 of
                         None \<Rightarrow> None
                       | Some s2 \<Rightarrow> Some (show_main_menu which s2))
                 else Some s1) of
             None \<Rightarrow> None
           | Some s3 \<Rightarrow>
               (case r_value s3 of
                  None \<Rightarrow> None
                | Some (r_val_new, s4) \<Rightarrow>
                    if r_val_old \<noteq> r_val_new
                    then
                      (let diff = r_val_old - r_val_new;
                           which' = clamp (which + diff) 0 2
                       in Some (r_val_new, which', show_main_menu which' s4))
                    else Some (r_val_old, which, s4))))"

text \<open>
  The main loop never returns. \<open>main_loop n\<close> is its first \<open>n\<close> passes: the loop variables
  and the system after them.
\<close>

fun main_loop :: "nat \<Rightarrow> int \<Rightarrow> int \<Rightarrow> sys \<Rightarrow> (int \<times> int \<times> sys) option" where
  "main_loop 0 r_val_old which s = Some (r_val_old, which, s)"
| "main_loop (Suc n) r_val_old which s =
     (case main_iter r_val_old which s of
        None \<Rightarrow> None
      | Some (r_val_old', which', s') \<Rightarrow> main_loop n r_val_old' which' s')"

text \<open>
  The module's top level up to the main loop: the globals get their initial values,
  whatever the output pins hold, the power LED is lit, the counter is read and the main
  menu is shown with the cursor on its first line. The pin and PWM set-up done at import
  (directions, pull-ups, the LED PWM frequencies) and the calls of \<open>debug\<close>, which print
  nothing while \<open>DEBUG\<close> is false, are left out.
\<close>

definition startup :: "sys \<Rightarrow> sys" where
  "startup s =
     emit (Power_duty_u16 1500)
       (s\<lparr>g_frequency := 50, g_servo_min := 2500, g_servo_max := 8750,
          g_powered := False, g_percent := 50\<rparr>)"

definition main :: "nat \<Rightarrow> sys \<Rightarrow> (int \<times> int \<times> sys) option" where
  "main n s =
     (case r_value (startup s) of
        None \<Rightarrow> None
      | Some (r_val_old, s1) \<Rightarrow> main_loop n r_val_old 0 (show_main_menu 0 s1))"

section \<open>Recorded inputs and reference functions\<close>

text \<open>
  What the spec calls the value reached by a sequence of clamped rotary edits: from the
  counter value \<open>r\<close> last seen and the value \<open>v\<close>, over the counter values \<open>rs\<close> the next polls
  read. A poll that reads the counter unchanged leaves the value alone.
\<close>

fun value_reached :: "int \<Rightarrow> int \<Rightarrow> int \<Rightarrow> int \<Rightarrow> int list \<Rightarrow> int" where
  "value_reached lo hi r v [] = v"
| "value_reached lo hi r v (r' # rs) =
     (if r \<noteq> r' then value_reached lo hi r' (clamp (v + (r - r')) lo hi) rs
      else value_reached lo hi r v rs)"

text \<open>
  An editing session as the inputs see it, put in front of the inputs of \<open>s\<close>: the first
  read of the counter gives \<open>r0\<close>; then one poll per element of \<open>rs\<close> finds both buttons up
  (level 1) and reads that counter value; then the blue button (confirm) or the yellow
  button (cancel) is found down and stays down for \<open>k\<close> more samples.
\<close>

definition session_confirm :: "int \<Rightarrow> int list \<Rightarrow> nat \<Rightarrow> sys \<Rightarrow> sys" where
  "session_confirm r0 rs k s =
     s\<lparr>yellow_in := replicate (Suc (length rs)) 1 @ yellow_in s,
       blue_in := replicate (length rs) 1 @ 0 # replicate k 0 @ 1 # blue_in s,
       rotary_in := r0 # rs @ rotary_in s\<rparr>"

definition session_cancel :: "int \<Rightarrow> int list \<Rightarrow> nat \<Rightarrow> sys \<Rightarrow> sys" where
  "session_cancel r0 rs k s =
     s\<lparr>yellow_in := replicate (length rs) 1 @ 0 # replicate k 0 @ 1 # yellow_in s,
       blue_in := replicate (length rs) 1 @ blue_in s,
       rotary_in := r0 # rs @ rotary_in s\<rparr>"

text \<open>The board before anything is written, with no input recorded.\<close>

definition cold_board :: sys where
  "cold_board =
     \<lparr>g_frequency = 50, g_servo_min = 2500, g_servo_max = 8750, g_powered = False,
      g_percent = 50, relay = 0, servo_freq = 0, pwm_blue = 0, pwm_green = 0, log = [],
      yellow_in = [], blue_in = [], rotary_in = []\<rparr>"

text \<open>The levels written to the relay pin, in order.\<close>

fun relay_writes :: "effect list \<Rightarrow> int list" where
  "relay_writes [] = []"
| "relay_writes (Relay_value v # es) = v # relay_writes es"
| "relay_writes (e # es) = relay_writes es"

text \<open>
  The relay convention of the source: level 0 while \<open>g_powered\<close> holds, level 1 otherwise.
\<close>

definition relay_follows :: "sys \<Rightarrow> bool" where
  "relay_follows s = (relay s = (if g_powered s then 0 else 1))"

text \<open>
  A servo test in which the blue button is pressed in the first pass and the yellow button
  in the second, the counter staying at 0.
\<close>

definition power_on_then_back :: sys where
  "power_on_then_back =
     cold_board\<lparr>yellow_in := [1, 0, 1], blue_in := [0, 1, 1], rotary_in := [0, 0, 0]\<rparr>"

text \<open>
  One poll as the inputs see it, put in front of the inputs of \<open>s\<close>: both buttons are up
  and the counter reads \<open>r_val_new\<close>.
\<close>

definition one_idle_poll :: "int \<Rightarrow> sys \<Rightarrow> sys" where
  "one_idle_poll r_val_new s =
     s\<lparr>yellow_in := 1 # yellow_in s, blue_in := 1 # blue_in s,
       rotary_in := r_val_new # rotary_in s\<rparr>"


text \<open>The bounds of the three settings, from the constants of the module.\<close>

definition settings_ok :: "sys \<Rightarrow> bool" where
  "settings_ok s =
     (FREQUENCY_MIN \<le> g_frequency s \<and> g_frequency s \<le> FREQUENCY_MAX
      \<and> SERVO_MIN_MIN \<le> g_servo_min s \<and> g_servo_min s \<le> SERVO_MIN_MAX
      \<and> SERVO_MAX_MIN \<le> g_servo_max s \<and> g_servo_max s \<le> SERVO_MAX_MAX)"

text \<open>The three settings are the same in both systems.\<close>

definition same_settings :: "sys \<Rightarrow> sys \<Rightarrow> bool" where
  "same_settings s s' =
     (g_frequency s' = g_frequency s \<and> g_servo_min s' = g_servo_min s
      \<and> g_servo_max s' = g_servo_max s)"

text \<open>
  What holds of the editor's \<open>value\<close> all along: it is the original value or it has been
  clamped into the bounds.
\<close>

definition editor_value_ok :: "int \<Rightarrow> int \<Rightarrow> int \<Rightarrow> int \<Rightarrow> bool" where
  "editor_value_ok lo hi orig v = (v = orig \<or> (lo \<le> v \<and> v \<le> hi))"

text \<open>
  Two passes of the main loop: the first selects Settings, where Frequency is selected
  and edited (the counter falls from 0 to -500, then the blue button confirms) and the
  yellow button leaves the settings menu; the second finds nothing pressed.
\<close>

definition edit_frequency_run :: sys where
  "edit_frequency_run =
     cold_board\<lparr>yellow_in := [1, 1, 1, 0, 1],
                blue_in := [0, 1, 0, 1, 1, 0, 1, 1, 1],
                rotary_in := [0, 0, 0, -500, -500, -500, -500, -500]\<rparr>"

section \<open>Theorems\<close>

lemmas bounds_defs =
  FREQUENCY_MIN_def FREQUENCY_MAX_def SERVO_MIN_MIN_def SERVO_MIN_MAX_def
  SERVO_MAX_MIN_def SERVO_MAX_MAX_def

subsection \<open>Helper lemmas\<close>

lemma wait_release_held: "wait_release (replicate k 0 @ 1 # xs) = Some (k, xs)"
  by (induction k) simp_all

lemma yellow_idle:
  "yellow_in s = 1 # xs \<Longrightarrow> button_pressed Button_yellow s = Some (False, s\<lparr>yellow_in := xs\<rparr>)"
  by (simp add: button_pressed_def pin_value_def samples_def set_samples_def)

lemma blue_idle:
  "blue_in s = 1 # xs \<Longrightarrow> button_pressed Button_blue s = Some (False, s\<lparr>blue_in := xs\<rparr>)"
  by (simp add: button_pressed_def pin_value_def samples_def set_samples_def)

lemma yellow_press:
  "yellow_in s = 0 # replicate k 0 @ 1 # xs \<Longrightarrow>
   button_pressed Button_yellow s
     = Some (True, s\<lparr>yellow_in := xs, log := log s @ replicate k (Sleep_ms 50)\<rparr>)"
  by (simp add: button_pressed_def pin_value_def samples_def set_samples_def
        wait_release_held sleeps_log)

lemma blue_press:
  "blue_in s = 0 # replicate k 0 @ 1 # xs \<Longrightarrow>
   button_pressed Button_blue s
     = Some (True, s\<lparr>blue_in := xs, log := log s @ replicate k (Sleep_ms 50)\<rparr>)"
  by (simp add: button_pressed_def pin_value_def samples_def set_samples_def
        wait_release_held sleeps_log)

lemma edit_loop_idle:
  assumes "yellow_in s = 1 # ys" "blue_in s = 1 # bs" "rotary_in s = rn # rt"
  shows "\<exists>s'. edit_loop nm lo hi orig r v s
            = edit_loop nm lo hi orig rn (if r \<noteq> rn then clamp (v + (r - rn)) lo hi else v) s'
          \<and> yellow_in s' = ys \<and> blue_in s' = bs \<and> rotary_in s' = rt"
proof (cases "r = rn")
  case True
  let ?s' = "s\<lparr>yellow_in := ys, blue_in := bs, rotary_in := rt\<rparr>"
  have "edit_iter nm lo hi orig r v s = Some (Again r v, ?s')"
    using assms True by (simp add: edit_iter_def yellow_idle blue_idle r_value_def)
  then have "edit_loop nm lo hi orig r v s = edit_loop nm lo hi orig r v ?s'"
    by (subst edit_loop.simps) simp
  with True show ?thesis by (intro exI [of _ ?s']) simp
next
  case False
  let ?v = "clamp (v + (r - rn)) lo hi"
  let ?s' = "show_one_setting nm lo hi ?v (s\<lparr>yellow_in := ys, blue_in := bs, rotary_in := rt\<rparr>)"
  have "edit_iter nm lo hi orig r v s = Some (Again rn ?v, ?s')"
    using assms False by (simp add: edit_iter_def yellow_idle blue_idle r_value_def Let_def)
  then have "edit_loop nm lo hi orig r v s = edit_loop nm lo hi orig rn ?v ?s'"
    by (subst edit_loop.simps) simp
  with False show ?thesis
    by (intro exI [of _ ?s']) (simp add: show_one_setting_def emit_def)
qed

lemma edit_loop_idle_polls:
  assumes "yellow_in s = replicate (length rs) 1 @ ys"
    and "blue_in s = replicate (length rs) 1 @ bs"
    and "rotary_in s = rs @ rt"
  shows "\<exists>r' s'. edit_loop nm lo hi orig r v s
            = edit_loop nm lo hi orig r' (value_reached lo hi r v rs) s'
          \<and> yellow_in s' = ys \<and> blue_in s' = bs \<and> rotary_in s' = rt"
  using assms
proof (induction rs arbitrary: r v s)
  case Nil
  then show ?case by auto
next
  case (Cons rn rs)
  from Cons.prems obtain s1 where
    step: "edit_loop nm lo hi orig r v s
             = edit_loop nm lo hi orig rn (if r \<noteq> rn then clamp (v + (r - rn)) lo hi else v) s1"
    and ins: "yellow_in s1 = replicate (length rs) 1 @ ys"
      "blue_in s1 = replicate (length rs) 1 @ bs" "rotary_in s1 = rs @ rt"
    using edit_loop_idle [of s "replicate (length rs) 1 @ ys" "replicate (length rs) 1 @ bs"
        rn "rs @ rt" nm lo hi orig r v]
    by auto
  from Cons.IH [OF ins] step show ?case
    by (cases "r = rn") auto
qed

lemma edit_loop_confirm:
  assumes "yellow_in s = 1 # ys" "blue_in s = 0 # replicate k 0 @ 1 # bs"
  shows "map_option fst (edit_loop nm lo hi orig r v s) = Some v"
proof -
  have "edit_iter nm lo hi orig r v s
          = Some (Return v, s\<lparr>yellow_in := ys, blue_in := bs,
                               log := log s @ replicate k (Sleep_ms 50)\<rparr>)"
    using assms by (simp add: edit_iter_def yellow_idle blue_press)
  then show ?thesis by (subst edit_loop.simps) simp
qed

lemma edit_loop_cancel:
  assumes "yellow_in s = 0 # replicate k 0 @ 1 # ys"
  shows "map_option fst (edit_loop nm lo hi orig r v s) = Some orig"
proof -
  have "edit_iter nm lo hi orig r v s
          = Some (Return orig, s\<lparr>yellow_in := ys, log := log s @ replicate k (Sleep_ms 50)\<rparr>)"
    using assms by (simp add: edit_iter_def yellow_press)
  then show ?thesis by (subst edit_loop.simps) simp
qed

lemma update_one_setting_confirm:
  "map_option fst (update_one_setting nm lo hi orig (session_confirm r0 rs k s))
     = Some (value_reached lo hi r0 orig rs)"
proof -
  let ?s1 = "show_one_setting nm lo hi orig ((session_confirm r0 rs k s)\<lparr>rotary_in := rs @ rotary_in s\<rparr>)"
  obtain r' s' where
    "edit_loop nm lo hi orig r0 orig ?s1 = edit_loop nm lo hi orig r' (value_reached lo hi r0 orig rs) s'"
    "yellow_in s' = 1 # yellow_in s" "blue_in s' = 0 # replicate k 0 @ 1 # blue_in s"
    using edit_loop_idle_polls [of ?s1 rs "1 # yellow_in s" "0 # replicate k 0 @ 1 # blue_in s"
        "rotary_in s" nm lo hi orig r0 orig]
    by (auto simp: session_confirm_def show_one_setting_def emit_def replicate_append_same)
  then show ?thesis
    using edit_loop_confirm [of s' "yellow_in s" k "blue_in s" nm lo hi orig r' "value_reached lo hi r0 orig rs"]
    by (simp add: update_one_setting_def r_value_def session_confirm_def)
qed

lemma update_one_setting_cancel:
  "map_option fst (update_one_setting nm lo hi orig (session_cancel r0 rs k s)) = Some orig"
proof -
  let ?s1 = "show_one_setting nm lo hi orig ((session_cancel r0 rs k s)\<lparr>rotary_in := rs @ rotary_in s\<rparr>)"
  obtain r' s' where
    "edit_loop nm lo hi orig r0 orig ?s1 = edit_loop nm lo hi orig r' (value_reached lo hi r0 orig rs) s'"
    "yellow_in s' = 0 # replicate k 0 @ 1 # yellow_in s"
    using edit_loop_idle_polls [of ?s1 rs "0 # replicate k 0 @ 1 # yellow_in s" "blue_in s"
        "rotary_in s" nm lo hi orig r0 orig]
    by (auto simp: session_cancel_def show_one_setting_def emit_def)
  then show ?thesis
    using edit_loop_cancel [of s' k "yellow_in s" nm lo hi orig r' "value_reached lo hi r0 orig rs"]
    by (simp add: update_one_setting_def r_value_def session_cancel_def)
qed

lemma value_reached_still: "value_reached lo hi r v (replicate n r) = v"
  by (induction n) simp_all

lemma set_samples_twice: "set_samples b xs (set_samples b ys s) = set_samples b xs s"
  by (cases b) (simp_all add: set_samples_def)

lemma samples_set_samples: "samples b (set_samples b xs s) = xs"
  by (cases b) (simp_all add: set_samples_def samples_def)

lemma button_pressed_frame:
  assumes "button_pressed b s = Some (p, s')"
  shows "\<exists>xs n. s' = (set_samples b xs s)\<lparr>log := log s @ replicate n (Sleep_ms 50)\<rparr>"
proof -
  from assms obtain v vs where vs: "samples b s = v # vs"
    by (auto simp: button_pressed_def pin_value_def split: list.splits)
  show ?thesis
  proof (cases "v = 0")
    case True
    with assms vs obtain n rest where "s' = sleeps n (set_samples b rest s)"
      by (auto simp: button_pressed_def pin_value_def samples_set_samples set_samples_twice
               split: option.splits)
    then have "s' = (set_samples b rest s)\<lparr>log := log s @ replicate n (Sleep_ms 50)\<rparr>"
      by (cases b) (simp_all add: sleeps_log set_samples_def)
    then show ?thesis by blast
  next
    case False
    with assms vs have "s' = (set_samples b vs s)\<lparr>log := log s @ replicate 0 (Sleep_ms 50)\<rparr>"
      by (cases b) (auto simp: button_pressed_def pin_value_def set_samples_def)
    then show ?thesis by blast
  qed
qed

lemma r_value_frame:
  assumes "r_value s = Some (v, s')"
  shows "s' = s\<lparr>rotary_in := tl (rotary_in s)\<rparr>"
  using assms by (auto simp: r_value_def split: list.splits)

lemma test_iter_cases:
  assumes "test_iter r s = Some (k, r', s')"
  obtains y s1 b s2 s3 where
    "button_pressed Button_yellow (sleep_ms 50 s) = Some (y, s1)"
    "button_pressed Button_blue (if y then pwm_green_duty_u16 PWM_OFF s1 else s1) = Some (b, s2)"
    "r_value (if b then toggle_power s2 else s2) = Some (r', s3)"
    "k = (\<not> y)"
    "s' = (if r \<noteq> r' then turn_percent (r - r') s3 else s3)"
  using assms
  by (auto simp: test_iter_def split: option.splits if_splits)

lemma toggle_power_follows: "relay_follows (toggle_power s)"
  by (simp add: relay_follows_def toggle_power_def Let_def update_servo_def
        show_test_details_def relay_value_def pwm_green_duty_u16_def pwm_blue_duty_u16_def emit_def)

lemma turn_percent_power:
  "relay (turn_percent d s) = relay s" "g_powered (turn_percent d s) = g_powered s"
  by (simp_all add: turn_percent_def Let_def update_servo_def show_test_details_def emit_def)

lemma test_iter_follows:
  assumes "test_iter r s = Some (k, r', s')" and "relay_follows s"
  shows "relay_follows s'"
proof -
  from assms(1) obtain y s1 b s2 s3 where
    y: "button_pressed Button_yellow (sleep_ms 50 s) = Some (y, s1)"
    and b: "button_pressed Button_blue (if y then pwm_green_duty_u16 PWM_OFF s1 else s1) = Some (b, s2)"
    and r: "r_value (if b then toggle_power s2 else s2) = Some (r', s3)"
    and s': "s' = (if r \<noteq> r' then turn_percent (r - r') s3 else s3)"
    by (rule test_iter_cases)
  from button_pressed_frame [OF y] assms(2) have 1: "relay_follows s1"
    by (auto simp: relay_follows_def sleep_ms_def emit_def set_samples_def)
  then have "relay_follows (if y then pwm_green_duty_u16 PWM_OFF s1 else s1)"
    by (simp add: relay_follows_def pwm_green_duty_u16_def emit_def)
  with button_pressed_frame [OF b] have 2: "relay_follows s2"
    by (auto simp: relay_follows_def set_samples_def)
  then have "relay_follows (if b then toggle_power s2 else s2)"
    by (simp add: toggle_power_follows)
  with r_value_frame [OF r] have "relay_follows s3"
    by (auto simp: relay_follows_def split: if_splits)
  with s' show ?thesis
    by (simp add: relay_follows_def turn_percent_power)
qed

lemma test_entry_fields:
  "g_powered (test_entry s) = False" "g_percent (test_entry s) = 50"
  "relay (test_entry s) = 1" "servo_freq (test_entry s) = g_frequency s"
  "log (test_entry s) = log s @ [Servo_freq (g_frequency s), Relay_value 1, Blue_duty_u16 PWM_ON,
      Green_duty_u16 PWM_OFF, Show_test_details False 50,
      Servo_duty 50 (g_servo_min s) (g_servo_max s)]"
  by (simp_all add: test_entry_def update_servo_def show_test_details_def relay_value_def
        pwm_servo_freq_def pwm_green_duty_u16_def pwm_blue_duty_u16_def emit_def)

lemma test_exit_fields:
  "g_powered (test_exit s) = False" "relay (test_exit s) = 1"
  "log (test_exit s) = log s @ [Blue_duty_u16 PWM_OFF, Green_duty_u16 PWM_OFF, Relay_value 1]"
  by (simp_all add: test_exit_def relay_value_def pwm_green_duty_u16_def pwm_blue_duty_u16_def
        emit_def)

lemma test_iter_log:
  assumes "test_iter r s = Some (k, r', s')"
  shows "\<exists>es. log s' = log s @ Sleep_ms 50 # es"
proof -
  from assms obtain y s1 b s2 s3 where
    y: "button_pressed Button_yellow (sleep_ms 50 s) = Some (y, s1)"
    and b: "button_pressed Button_blue (if y then pwm_green_duty_u16 PWM_OFF s1 else s1) = Some (b, s2)"
    and r: "r_value (if b then toggle_power s2 else s2) = Some (r', s3)"
    and s': "s' = (if r \<noteq> r' then turn_percent (r - r') s3 else s3)"
    by (rule test_iter_cases)
  from button_pressed_frame [OF y] have 1: "\<exists>es. log s1 = log s @ Sleep_ms 50 # es"
    by (auto simp: sleep_ms_def emit_def set_samples_def)
  then have "\<exists>es. log (if y then pwm_green_duty_u16 PWM_OFF s1 else s1) = log s @ Sleep_ms 50 # es"
    by (cases y) (auto simp: pwm_green_duty_u16_def emit_def)
  with button_pressed_frame [OF b] have 2: "\<exists>es. log s2 = log s @ Sleep_ms 50 # es"
    by (auto simp: set_samples_def)
  then have "\<exists>es. log (if b then toggle_power s2 else s2) = log s @ Sleep_ms 50 # es"
    by (cases b) (auto simp: toggle_power_def Let_def update_servo_def
        show_test_details_def relay_value_def pwm_green_duty_u16_def pwm_blue_duty_u16_def emit_def)
  with r_value_frame [OF r] have "\<exists>es. log s3 = log s @ Sleep_ms 50 # es"
    by (auto split: if_splits)
  with s' show ?thesis
    by (auto simp: turn_percent_def Let_def update_servo_def show_test_details_def emit_def)
qed

lemma test_loop_follows:
  "test_loop r s = Some s' \<Longrightarrow> relay_follows s \<Longrightarrow> relay_follows s'"
proof (induction r s rule: test_loop.induct)
  case (1 r s)
  from "1.prems"(1) obtain k r1 s1 where it: "test_iter r s = Some (k, r1, s1)"
    by (subst (asm) test_loop.simps) (auto split: option.splits)
  note f = test_iter_follows [OF it "1.prems"(2)]
  show ?case
  proof (cases k)
    case True
    with "1.prems"(1) it have "test_loop r1 s1 = Some s'"
      by (subst (asm) test_loop.simps) simp
    from "1.IH" [OF it refl refl True this f] show ?thesis .
  next
    case False
    with "1.prems"(1) it f show ?thesis
      by (subst (asm) test_loop.simps) simp
  qed
qed

lemma test_loop_log:
  "test_loop r s = Some s' \<Longrightarrow> \<exists>es. log s' = log s @ es"
proof (induction r s rule: test_loop.induct)
  case (1 r s)
  from "1.prems"(1) obtain k r1 s1 where it: "test_iter r s = Some (k, r1, s1)"
    by (subst (asm) test_loop.simps) (auto split: option.splits)
  from test_iter_log [OF it] obtain e1 where e1: "log s1 = log s @ Sleep_ms 50 # e1" ..
  show ?case
  proof (cases k)
    case True
    with "1.prems"(1) it have "test_loop r1 s1 = Some s'"
      by (subst (asm) test_loop.simps) simp
    from "1.IH" [OF it refl refl True this] e1 show ?thesis by auto
  next
    case False
    with "1.prems"(1) it e1 show ?thesis
      by (subst (asm) test_loop.simps) simp
  qed
qed

lemma run_test_cases:
  assumes "run_test s = Some s'"
  obtains r s1 s2 where "r_value (test_entry s) = Some (r, s1)" "test_loop r s1 = Some s2"
    "s' = test_exit s2"
proof -
  from assms obtain r s1 where r: "r_value (test_entry s) = Some (r, s1)"
    by (cases "r_value (test_entry s)") (auto simp: run_test_def)
  with assms obtain s2 where "test_loop r s1 = Some s2" "s' = test_exit s2"
    by (cases "test_loop r s1") (auto simp: run_test_def)
  with r that show thesis by blast
qed

lemma power_on_then_back_runs: "run_test power_on_then_back \<noteq> None"
  by (simp add: run_test_def power_on_then_back_def cold_board_def r_value_def
        test_entry_def test_exit_def test_loop.simps test_iter_def toggle_power_def
        button_pressed_def pin_value_def samples_def
        set_samples_def show_test_details_def update_servo_def relay_value_def pwm_servo_freq_def
        pwm_green_duty_u16_def pwm_blue_duty_u16_def sleep_ms_def emit_def Let_def)







lemma clamp_cursor: "0 \<le> clamp x 0 2 \<and> clamp x 0 2 \<le> 2"
  by (simp add: clamp_def)

lemma clamp_cursor_still: "0 \<le> w \<Longrightarrow> w \<le> 2 \<Longrightarrow> clamp (w + (r - r)) 0 2 = w"
  by (simp add: clamp_def)






lemma same_settings_refl: "same_settings s s"
  by (simp add: same_settings_def)

lemma same_settings_trans: "same_settings s s1 \<Longrightarrow> same_settings s1 s2 \<Longrightarrow> same_settings s s2"
  by (simp add: same_settings_def)

lemma same_settings_ok: "same_settings s s' \<Longrightarrow> settings_ok s \<Longrightarrow> settings_ok s'"
  by (simp add: same_settings_def settings_ok_def)

lemma same_settings_emit: "same_settings s (emit e s)"
  by (simp add: same_settings_def emit_def)

lemma button_pressed_same: "button_pressed b s = Some (p, s') \<Longrightarrow> same_settings s s'"
  by (drule button_pressed_frame, cases b) (auto simp: same_settings_def set_samples_def)

lemma r_value_same: "r_value s = Some (v, s') \<Longrightarrow> same_settings s s'"
  by (drule r_value_frame) (simp add: same_settings_def)

lemma edit_iter_cases:
  assumes "edit_iter nm lo hi orig r v s = Some (st, s')"
  obtains (cancel) "button_pressed Button_yellow s = Some (True, s')" "st = Return orig"
  | (confirm) s1 where "button_pressed Button_yellow s = Some (False, s1)"
      "button_pressed Button_blue s1 = Some (True, s')" "st = Return v"
  | (turn) s1 s2 s3 r' where "button_pressed Button_yellow s = Some (False, s1)"
      "button_pressed Button_blue s1 = Some (False, s2)" "r_value s2 = Some (r', s3)"
      "st = Again r' (if r \<noteq> r' then clamp (v + (r - r')) lo hi else v)"
      "s' = (if r \<noteq> r'
             then show_one_setting nm lo hi (clamp (v + (r - r')) lo hi) s3 else s3)"
proof -
  obtain y s1 where y: "button_pressed Button_yellow s = Some (y, s1)"
    using assms by (cases "button_pressed Button_yellow s") (auto simp: edit_iter_def)
  show thesis
  proof (cases y)
    case True
    with assms y cancel show thesis by (simp add: edit_iter_def)
  next
    case ny: False
    obtain b s2 where b: "button_pressed Button_blue s1 = Some (b, s2)"
      using assms y ny by (cases "button_pressed Button_blue s1") (auto simp: edit_iter_def)
    show thesis
    proof (cases b)
      case True
      with assms y ny b confirm show thesis by (simp add: edit_iter_def)
    next
      case nb: False
      obtain rn s3 where r: "r_value s2 = Some (rn, s3)"
        using assms y ny b nb by (cases "r_value s2") (auto simp: edit_iter_def)
      from assms y ny b nb r
      have "st = Again rn (if r \<noteq> rn then clamp (v + (r - rn)) lo hi else v)"
        and "s' = (if r \<noteq> rn
             then show_one_setting nm lo hi (clamp (v + (r - rn)) lo hi) s3 else s3)"
        by (auto simp: edit_iter_def Let_def split: if_splits)
      with y ny b nb r show thesis using turn [of s1 s2 rn s3] by simp
    qed
  qed
qed

lemma edit_iter_same:
  assumes "edit_iter nm lo hi orig r v s = Some (st, s')"
  shows "same_settings s s'"
  using assms
proof (cases rule: edit_iter_cases)
  case cancel
  then show ?thesis by (simp add: button_pressed_same)
next
  case (confirm s1)
  then show ?thesis
    by (blast intro: same_settings_trans button_pressed_same)
next
  case (turn s1 s2 s3 r')
  have "same_settings s3 s'"
    using turn(5) by (simp add: same_settings_def show_one_setting_def emit_def)
  with turn(1-3) show ?thesis
    by (blast intro: same_settings_trans button_pressed_same r_value_same)
qed

lemma edit_iter_value:
  assumes "edit_iter nm lo hi orig r v s = Some (st, s')" "lo \<le> hi" "editor_value_ok lo hi orig v"
  shows "(case st of Return x \<Rightarrow> editor_value_ok lo hi orig x
          | Again r' v' \<Rightarrow> editor_value_ok lo hi orig v')"
  using assms(1)
proof (cases rule: edit_iter_cases)
  case cancel
  then show ?thesis by (simp add: editor_value_ok_def)
next
  case (confirm s1)
  with assms(3) show ?thesis by simp
next
  case (turn s1 s2 s3 r')
  with assms(2,3) show ?thesis by (auto simp: editor_value_ok_def clamp_def)
qed

lemma edit_loop_keeps:
  "edit_loop nm lo hi orig r v s = Some (res, s') \<Longrightarrow> lo \<le> hi \<Longrightarrow> editor_value_ok lo hi orig v
   \<Longrightarrow> same_settings s s' \<and> editor_value_ok lo hi orig res"
proof (induction nm lo hi orig r v s rule: edit_loop.induct)
  case (1 nm lo hi orig r v s)
  from "1.prems"(1) obtain st s1 where it: "edit_iter nm lo hi orig r v s = Some (st, s1)"
    by (subst (asm) edit_loop.simps) (cases "edit_iter nm lo hi orig r v s", auto)
  note same = edit_iter_same [OF it]
  note val = edit_iter_value [OF it "1.prems"(2,3)]
  show ?case
  proof (cases st)
    case (Return x)
    with "1.prems"(1) it same val show ?thesis
      by (subst (asm) edit_loop.simps) simp
  next
    case (Again r' v')
    with "1.prems"(1) it have l: "edit_loop nm lo hi orig r' v' s1 = Some (res, s')"
      by (subst (asm) edit_loop.simps) simp
    from val Again have "editor_value_ok lo hi orig v'" by simp
    from "1.IH" [OF it refl Again l "1.prems"(2) this] same show ?thesis
      by (blast intro: same_settings_trans)
  qed
qed

lemma edit_loop_same:
  "edit_loop nm lo hi orig r v s = Some (res, s') \<Longrightarrow> same_settings s s'"
proof (induction nm lo hi orig r v s rule: edit_loop.induct)
  case (1 nm lo hi orig r v s)
  from "1.prems" obtain st s1 where it: "edit_iter nm lo hi orig r v s = Some (st, s1)"
    by (subst (asm) edit_loop.simps) (cases "edit_iter nm lo hi orig r v s", auto)
  note same = edit_iter_same [OF it]
  show ?case
  proof (cases st)
    case (Return x)
    with "1.prems" it same show ?thesis
      by (subst (asm) edit_loop.simps) simp
  next
    case (Again r' v')
    with "1.prems" it have l: "edit_loop nm lo hi orig r' v' s1 = Some (res, s')"
      by (subst (asm) edit_loop.simps) simp
    from "1.IH" [OF it refl Again l] same show ?thesis
      by (blast intro: same_settings_trans)
  qed
qed

lemma update_one_setting_keeps:
  assumes "update_one_setting nm lo hi orig s = Some (res, s')" "lo \<le> hi"
  shows "same_settings s s'" "editor_value_ok lo hi orig res"
proof -
  from assms(1) obtain r s1 where r: "r_value s = Some (r, s1)"
    and l: "edit_loop nm lo hi orig r orig (show_one_setting nm lo hi orig s1) = Some (res, s')"
    by (cases "r_value s") (auto simp: update_one_setting_def)
  have "same_settings s (show_one_setting nm lo hi orig s1)"
    using r_value_same [OF r] by (simp add: same_settings_def show_one_setting_def emit_def)
  moreover have "editor_value_ok lo hi orig orig" by (simp add: editor_value_ok_def)
  ultimately show "same_settings s s'" "editor_value_ok lo hi orig res"
    using edit_loop_keeps [OF l assms(2)] by (blast intro: same_settings_trans)+
qed

lemma set_frequency_cases:
  assumes "set_frequency s = Some s'"
  obtains s1 where
    "update_one_setting ''frequency'' FREQUENCY_MIN FREQUENCY_MAX (g_frequency s) s
       = Some (g_frequency s', s1)"
    "s' = s1\<lparr>g_frequency := g_frequency s'\<rparr>"
  using assms
  by (cases "update_one_setting ''frequency'' FREQUENCY_MIN FREQUENCY_MAX (g_frequency s) s")
     (auto simp: set_frequency_def)

lemma set_min_cases:
  assumes "set_min s = Some s'"
  obtains s1 where
    "update_one_setting ''servo min'' SERVO_MIN_MIN SERVO_MIN_MAX (g_servo_min s) s
       = Some (g_servo_min s', s1)"
    "s' = s1\<lparr>g_servo_min := g_servo_min s'\<rparr>"
  using assms
  by (cases "update_one_setting ''servo min'' SERVO_MIN_MIN SERVO_MIN_MAX (g_servo_min s) s")
     (auto simp: set_min_def)

lemma set_max_cases:
  assumes "set_max s = Some s'"
  obtains s1 where
    "update_one_setting ''servo max'' SERVO_MAX_MIN SERVO_MAX_MAX (g_servo_max s) s
       = Some (g_servo_max s', s1)"
    "s' = s1\<lparr>g_servo_max := g_servo_max s'\<rparr>"
  using assms
  by (cases "update_one_setting ''servo max'' SERVO_MAX_MIN SERVO_MAX_MAX (g_servo_max s) s")
     (auto simp: set_max_def)

lemma set_frequency_ok:
  assumes "set_frequency s = Some s'" "settings_ok s"
  shows "settings_ok s'" "g_servo_min s' = g_servo_min s" "g_servo_max s' = g_servo_max s"
proof -
  from assms(1) obtain s1 where
    u: "update_one_setting ''frequency'' FREQUENCY_MIN FREQUENCY_MAX (g_frequency s) s
       = Some (g_frequency s', s1)"
    and s': "s' = s1\<lparr>g_frequency := g_frequency s'\<rparr>"
    by (rule set_frequency_cases)
  have le: "FREQUENCY_MIN \<le> FREQUENCY_MAX" by (simp add: bounds_defs)
  note k = update_one_setting_keeps [OF u le]
  from s' have m: "g_servo_min s' = g_servo_min s1" "g_servo_max s' = g_servo_max s1"
    by (metis sys.select_convs sys.surjective sys.update_convs(1))+
  from k(1) m show "g_servo_min s' = g_servo_min s" "g_servo_max s' = g_servo_max s"
    by (simp_all add: same_settings_def)
  with k(2) assms(2) show "settings_ok s'"
    by (auto simp: settings_ok_def editor_value_ok_def)
qed

lemma set_min_ok:
  assumes "set_min s = Some s'" "settings_ok s"
  shows "settings_ok s'" "g_frequency s' = g_frequency s" "g_servo_max s' = g_servo_max s"
proof -
  from assms(1) obtain s1 where
    u: "update_one_setting ''servo min'' SERVO_MIN_MIN SERVO_MIN_MAX (g_servo_min s) s
       = Some (g_servo_min s', s1)"
    and s': "s' = s1\<lparr>g_servo_min := g_servo_min s'\<rparr>"
    by (rule set_min_cases)
  have le: "SERVO_MIN_MIN \<le> SERVO_MIN_MAX" by (simp add: bounds_defs)
  note k = update_one_setting_keeps [OF u le]
  from s' have m: "g_frequency s' = g_frequency s1" "g_servo_max s' = g_servo_max s1"
    by (metis sys.select_convs sys.surjective sys.update_convs(2))+
  from k(1) m show "g_frequency s' = g_frequency s" "g_servo_max s' = g_servo_max s"
    by (simp_all add: same_settings_def)
  with k(2) assms(2) show "settings_ok s'"
    by (auto simp: settings_ok_def editor_value_ok_def)
qed

lemma set_max_ok:
  assumes "set_max s = Some s'" "settings_ok s"
  shows "settings_ok s'" "g_frequency s' = g_frequency s" "g_servo_min s' = g_servo_min s"
proof -
  from assms(1) obtain s1 where
    u: "update_one_setting ''servo max'' SERVO_MAX_MIN SERVO_MAX_MAX (g_servo_max s) s
       = Some (g_servo_max s', s1)"
    and s': "s' = s1\<lparr>g_servo_max := g_servo_max s'\<rparr>"
    by (rule set_max_cases)
  have le: "SERVO_MAX_MIN \<le> SERVO_MAX_MAX" by (simp add: bounds_defs)
  note k = update_one_setting_keeps [OF u le]
  from s' have m: "g_frequency s' = g_frequency s1" "g_servo_min s' = g_servo_min s1"
    by (metis sys.select_convs sys.surjective sys.update_convs(3))+
  from k(1) m show "g_frequency s' = g_frequency s" "g_servo_min s' = g_servo_min s"
    by (simp_all add: same_settings_def)
  with k(2) assms(2) show "settings_ok s'"
    by (auto simp: settings_ok_def editor_value_ok_def)
qed

lemma edit_selected_ok: "edit_selected w s = Some s' \<Longrightarrow> settings_ok s \<Longrightarrow> settings_ok s'"
  unfolding edit_selected_def
  by (auto split: if_splits intro: set_frequency_ok(1) set_min_ok(1) set_max_ok(1))

lemma settings_iter_ok:
  assumes "settings_iter r w s = Some (k, r', w', s')" "settings_ok s"
  shows "settings_ok s'"
proof -
  obtain y s1 where y: "button_pressed Button_yellow (sleep_ms 50 s) = Some (y, s1)"
    using assms by (cases "button_pressed Button_yellow (sleep_ms 50 s)") (auto simp: settings_iter_def)
  obtain b s2 where b: "button_pressed Button_blue s1 = Some (b, s2)"
    using assms y by (cases "button_pressed Button_blue s1") (auto simp: settings_iter_def)
  define e where "e = (if b then (case edit_selected w s2 of None \<Rightarrow> None
                          | Some s3 \<Rightarrow> Some (show_settings_menu w s3))
                        else Some s2)"
  obtain s4 where s4: "e = Some s4"
    using assms y b by (cases e) (auto simp: settings_iter_def e_def)
  obtain rn s5 where r: "r_value s4 = Some (rn, s5)"
    using assms y b s4 by (cases "r_value s4") (auto simp: settings_iter_def e_def)
  have "settings_ok (sleep_ms 50 s)"
    using assms(2) by (simp add: settings_ok_def sleep_ms_def emit_def)
  then have "settings_ok s1"
    using button_pressed_same [OF y] by (rule same_settings_ok [rotated])
  then have 2: "settings_ok s2"
    using button_pressed_same [OF b] by (rule same_settings_ok [rotated])
  have "settings_ok s4"
  proof (cases b)
    case True
    with s4 obtain s3 where e3: "edit_selected w s2 = Some s3" and "s4 = show_settings_menu w s3"
      by (cases "edit_selected w s2") (auto simp: e_def)
    with edit_selected_ok [OF e3 2] show ?thesis
      by (simp add: settings_ok_def show_settings_menu_def emit_def)
  next
    case False
    with s4 2 show ?thesis by (simp add: e_def)
  qed
  then have "settings_ok s5"
    using r_value_same [OF r] by (rule same_settings_ok [rotated])
  moreover from assms(1) y b s4 r
  have "s' = s5 \<or> s' = show_settings_menu w' s5"
    by (auto simp: settings_iter_def e_def Let_def split: if_splits)
  ultimately show ?thesis
    by (auto simp: settings_ok_def show_settings_menu_def emit_def)
qed

lemma settings_loop_ok:
  "settings_loop r w s = Some (w', s') \<Longrightarrow> settings_ok s \<Longrightarrow> settings_ok s'"
proof (induction r w s rule: settings_loop.induct)
  case (1 r w s)
  from "1.prems"(1) obtain k r1 w1 s1 where it: "settings_iter r w s = Some (k, r1, w1, s1)"
    by (subst (asm) settings_loop.simps) (cases "settings_iter r w s", auto)
  note ok = settings_iter_ok [OF it "1.prems"(2)]
  show ?case
  proof (cases k)
    case True
    with "1.prems"(1) it have "settings_loop r1 w1 s1 = Some (w', s')"
      by (subst (asm) settings_loop.simps) simp
    from "1.IH" [OF it refl refl refl True this ok] show ?thesis .
  next
    case False
    with "1.prems"(1) it ok show ?thesis
      by (subst (asm) settings_loop.simps) simp
  qed
qed

lemma settings_keeps_ok:
  assumes "settings s = Some s'" "settings_ok s"
  shows "settings_ok s'"
proof -
  from assms(1) obtain r s1 w where r: "r_value s = Some (r, s1)"
    and l: "settings_loop r 0 (show_settings_menu 0 s1) = Some (w, s')"
    by (cases "r_value s"; cases "settings_loop (fst (the (r_value s))) 0
          (show_settings_menu 0 (snd (the (r_value s))))") (auto simp: settings_def)
  have "settings_ok s1"
    using r_value_same [OF r] assms(2) by (rule same_settings_ok)
  then have "settings_ok (show_settings_menu 0 s1)"
    by (simp add: settings_ok_def show_settings_menu_def emit_def)
  with l show ?thesis by (rule settings_loop_ok)
qed

lemma test_iter_same:
  assumes "test_iter r s = Some (k, r', s')"
  shows "same_settings s s'"
proof -
  from assms obtain y s1 b s2 s3 where
    y: "button_pressed Button_yellow (sleep_ms 50 s) = Some (y, s1)"
    and b: "button_pressed Button_blue (if y then pwm_green_duty_u16 PWM_OFF s1 else s1) = Some (b, s2)"
    and r: "r_value (if b then toggle_power s2 else s2) = Some (r', s3)"
    and s': "s' = (if r \<noteq> r' then turn_percent (r - r') s3 else s3)"
    by (rule test_iter_cases)
  have "same_settings s (sleep_ms 50 s)"
    by (simp add: same_settings_def sleep_ms_def emit_def)
  with button_pressed_same [OF y] have 1: "same_settings s s1"
    by (blast intro: same_settings_trans)
  have "same_settings s1 (if y then pwm_green_duty_u16 PWM_OFF s1 else s1)"
    by (simp add: same_settings_def pwm_green_duty_u16_def emit_def)
  with 1 button_pressed_same [OF b] have 2: "same_settings s s2"
    by (blast intro: same_settings_trans)
  have "same_settings s2 (if b then toggle_power s2 else s2)"
    by (simp add: same_settings_def toggle_power_def Let_def update_servo_def
          show_test_details_def relay_value_def pwm_green_duty_u16_def pwm_blue_duty_u16_def
          emit_def)
  with 2 r_value_same [OF r] have 3: "same_settings s s3"
    by (blast intro: same_settings_trans)
  have "same_settings s3 s'"
    by (simp add: s' same_settings_def turn_percent_def Let_def update_servo_def
          show_test_details_def emit_def)
  with 3 show ?thesis by (rule same_settings_trans)
qed

lemma test_loop_same: "test_loop r s = Some s' \<Longrightarrow> same_settings s s'"
proof (induction r s rule: test_loop.induct)
  case (1 r s)
  from "1.prems" obtain k r1 s1 where it: "test_iter r s = Some (k, r1, s1)"
    by (subst (asm) test_loop.simps) (cases "test_iter r s", auto)
  note same = test_iter_same [OF it]
  show ?case
  proof (cases k)
    case True
    with "1.prems" it have "test_loop r1 s1 = Some s'"
      by (subst (asm) test_loop.simps) simp
    from "1.IH" [OF it refl refl True this] same show ?thesis
      by (blast intro: same_settings_trans)
  next
    case False
    with "1.prems" it same show ?thesis
      by (subst (asm) test_loop.simps) simp
  qed
qed

lemma run_test_same:
  assumes "run_test s = Some s'"
  shows "same_settings s s'"
proof -
  from assms obtain r s1 s2 where r: "r_value (test_entry s) = Some (r, s1)"
    and l: "test_loop r s1 = Some s2" and s': "s' = test_exit s2"
    by (rule run_test_cases)
  have "same_settings s (test_entry s)"
    by (simp add: same_settings_def test_entry_def update_servo_def show_test_details_def
          relay_value_def pwm_servo_freq_def pwm_green_duty_u16_def pwm_blue_duty_u16_def emit_def)
  moreover have "same_settings s2 s'"
    by (simp add: s' same_settings_def test_exit_def relay_value_def pwm_green_duty_u16_def
          pwm_blue_duty_u16_def emit_def)
  ultimately show ?thesis
    using r_value_same [OF r] test_loop_same [OF l] by (blast intro: same_settings_trans)
qed

lemma help_wait_same: "help_wait s = Some s' \<Longrightarrow> same_settings s s'"
proof (induction s rule: help_wait.induct)
  case (1 s)
  from "1.prems" obtain y s1 where y: "button_pressed Button_yellow s = Some (y, s1)"
    by (subst (asm) help_wait.simps) (cases "button_pressed Button_yellow s", auto)
  note same = button_pressed_same [OF y]
  show ?case
  proof (cases y)
    case True
    with "1.prems" y same show ?thesis
      by (subst (asm) help_wait.simps) simp
  next
    case False
    with "1.prems" y have l: "help_wait (sleep_ms 50 s1) = Some s'"
      by (subst (asm) help_wait.simps) simp
    have "same_settings s1 (sleep_ms 50 s1)"
      by (simp add: same_settings_def sleep_ms_def emit_def)
    with "1.IH" [OF y refl False l] same show ?thesis
      by (blast intro: same_settings_trans)
  qed
qed

lemma help_screen_same: "help_screen s = Some s' \<Longrightarrow> same_settings s s'"
  unfolding help_screen_def
  by (drule help_wait_same) (simp add: same_settings_def emit_def)

lemma enter_selected_ok: "enter_selected w s = Some s' \<Longrightarrow> settings_ok s \<Longrightarrow> settings_ok s'"
  unfolding enter_selected_def
  by (auto split: if_splits
      intro: settings_keeps_ok same_settings_ok [OF run_test_same] same_settings_ok [OF help_screen_same])

lemma main_iter_ok:
  assumes "main_iter r w s = Some (r', w', s')" "settings_ok s"
  shows "settings_ok s'"
proof -
  define s0 where "s0 = pwm_blue_duty_u16 PWM_OFF (pwm_green_duty_u16 PWM_OFF (sleep_ms 50 s))"
  obtain b s1 where b: "button_pressed Button_blue s0 = Some (b, s1)"
    using assms by (cases "button_pressed Button_blue s0") (auto simp: main_iter_def s0_def)
  define e where "e = (if b then (case enter_selected w s1 of None \<Rightarrow> None
                          | Some s2 \<Rightarrow> Some (show_main_menu w s2))
                        else Some s1)"
  obtain s3 where s3: "e = Some s3"
    using assms b by (cases e) (auto simp: main_iter_def e_def s0_def)
  obtain rn s4 where r: "r_value s3 = Some (rn, s4)"
    using assms b s3 by (cases "r_value s3") (auto simp: main_iter_def e_def s0_def)
  have "settings_ok s0"
    using assms(2)
    by (simp add: s0_def settings_ok_def sleep_ms_def pwm_blue_duty_u16_def
          pwm_green_duty_u16_def emit_def)
  then have 1: "settings_ok s1"
    using button_pressed_same [OF b] by (rule same_settings_ok [rotated])
  have "settings_ok s3"
  proof (cases b)
    case True
    with s3 obtain s2 where e2: "enter_selected w s1 = Some s2" and "s3 = show_main_menu w s2"
      by (cases "enter_selected w s1") (auto simp: e_def)
    with enter_selected_ok [OF e2 1] show ?thesis
      by (simp add: settings_ok_def show_main_menu_def emit_def)
  next
    case False
    with s3 1 show ?thesis by (simp add: e_def)
  qed
  then have "settings_ok s4"
    using r_value_same [OF r] by (rule same_settings_ok [rotated])
  moreover from assms(1) b s3 r
  have "s' = s4 \<or> s' = show_main_menu w' s4"
    by (auto simp: main_iter_def e_def s0_def Let_def split: if_splits)
  ultimately show ?thesis
    by (auto simp: settings_ok_def show_main_menu_def emit_def)
qed

lemma main_loop_ok:
  "main_loop n r w s = Some (r', w', s') \<Longrightarrow> settings_ok s \<Longrightarrow> settings_ok s'"
proof (induction n arbitrary: r w s)
  case 0
  then show ?case by simp
next
  case (Suc n)
  from Suc.prems(1) obtain r1 w1 s1 where it: "main_iter r w s = Some (r1, w1, s1)"
    and l: "main_loop n r1 w1 s1 = Some (r', w', s')"
    by (cases "main_iter r w s") auto
  from Suc.IH [OF l main_iter_ok [OF it Suc.prems(2)]] show ?case .
qed

lemma startup_settings:
  "g_frequency (startup s) = 50" "g_servo_min (startup s) = 2500"
  "g_servo_max (startup s) = 8750" "settings_ok (startup s)"
  by (simp_all add: startup_def emit_def settings_ok_def bounds_defs)

lemma main_ok:
  assumes "main n s = Some (r, w, s')"
  shows "settings_ok s'"
proof -
  from assms obtain r0 s1 where r: "r_value (startup s) = Some (r0, s1)"
    and l: "main_loop n r0 0 (show_main_menu 0 s1) = Some (r, w, s')"
    by (cases "r_value (startup s)") (auto simp: main_def)
  have "settings_ok s1"
    using r_value_same [OF r] startup_settings(4) by (rule same_settings_ok)
  then have "settings_ok (show_main_menu 0 s1)"
    by (simp add: settings_ok_def show_main_menu_def emit_def)
  with l show ?thesis by (rule main_loop_ok)
qed

lemma edit_frequency_run_result:
  "map_option (g_frequency \<circ> snd \<circ> snd) (main 2 edit_frequency_run) = Some 200"
  by (simp add: main_def startup_def edit_frequency_run_def cold_board_def numeral_2_eq_2
        main_iter_def enter_selected_def settings_def settings_iter_def edit_selected_def
        set_frequency_def update_one_setting_def edit_iter_def
        button_pressed_def pin_value_def samples_def set_samples_def r_value_def Let_def
        sleep_ms_def pwm_blue_duty_u16_def pwm_green_duty_u16_def show_main_menu_def
        show_settings_menu_def show_one_setting_def emit_def clamp_def bounds_defs)

subsection \<open>The claims\<close>



text \<open>
  C3. For every call \<open>update_one_setting(name, min, max, initial)\<close>: a session that ends with
  the confirm button returns the value reached by the sequence of clamped rotary edits; a
  session that ends with the cancel button returns exactly \<open>initial\<close>, whatever was edited,
  so the setting that \<open>set_frequency\<close>, \<open>set_min\<close> or \<open>set_max\<close> assigns is unchanged after
  a cancelled edit.
\<close>

theorem editor_confirm_cancel:
  "map_option fst (update_one_setting nm lo hi initial (session_confirm r0 rs k s))
     = Some (value_reached lo hi r0 initial rs)
   \<and> map_option fst (update_one_setting nm lo hi initial (session_cancel r0 rs k s)) = Some initial
   \<and> map_option g_frequency (set_frequency (session_cancel r0 rs k s)) = Some (g_frequency s)
   \<and> map_option g_servo_min (set_min (session_cancel r0 rs k s)) = Some (g_servo_min s)
   \<and> map_option g_servo_max (set_max (session_cancel r0 rs k s)) = Some (g_servo_max s)"
proof -
  have g: "g_frequency (session_cancel r0 rs k s) = g_frequency s"
    "g_servo_min (session_cancel r0 rs k s) = g_servo_min s"
    "g_servo_max (session_cancel r0 rs k s) = g_servo_max s"
    by (simp_all add: session_cancel_def)
  have c: "\<exists>s'. update_one_setting nm lo hi v (session_cancel r0 rs k s) = Some (v, s')"
    for nm lo hi v
    using update_one_setting_cancel [of nm lo hi v r0 rs k s]
    by (cases "update_one_setting nm lo hi v (session_cancel r0 rs k s)") auto
  have "map_option g_frequency (set_frequency (session_cancel r0 rs k s)) = Some (g_frequency s)"
    using c [of "''frequency''" FREQUENCY_MIN FREQUENCY_MAX "g_frequency s"]
    by (auto simp: set_frequency_def g)
  moreover have "map_option g_servo_min (set_min (session_cancel r0 rs k s)) = Some (g_servo_min s)"
    using c [of "''servo min''" SERVO_MIN_MIN SERVO_MIN_MAX "g_servo_min s"]
    by (auto simp: set_min_def g)
  moreover have "map_option g_servo_max (set_max (session_cancel r0 rs k s)) = Some (g_servo_max s)"
    using c [of "''servo max''" SERVO_MAX_MIN SERVO_MAX_MAX "g_servo_max s"]
    by (auto simp: set_max_def g)
  ultimately show ?thesis
    by (simp add: update_one_setting_confirm update_one_setting_cancel)
qed

lemma editor_confirm_cancel_example:
  "map_option fst (update_one_setting ''frequency'' 10 200 50
      (session_confirm 0 [-500, -497] 2 cold_board)) = Some 197
   \<and> map_option fst (update_one_setting ''frequency'' 10 200 50
      (session_cancel 0 [-500, -497] 2 cold_board)) = Some 50"
  by (simp add: update_one_setting_confirm update_one_setting_cancel clamp_def)

text \<open>
  C10. For every call \<open>update_one_setting(name, min, max, original_value)\<close> in which the
  confirm button is pressed before any change of the counter is seen, the value returned
  is \<open>original_value\<close>, also when it lies outside [min, max]: the initial value is never
  clamped.
\<close>

theorem confirm_without_turn_returns_original:
  "map_option fst
     (update_one_setting nm lo hi original_value (session_confirm r0 (replicate n r0) k s))
   = Some original_value"
  by (simp add: update_one_setting_confirm value_reached_still)

lemma confirm_without_turn_example:
  "map_option fst (update_one_setting ''frequency'' 10 200 500
      (session_confirm 7 [7, 7, 7] 1 cold_board)) = Some 500"
  by (simp add: update_one_setting_confirm)

text \<open>
  C9, for the value editor. The claim says every state loop sleeps the poll interval at
  the start of each pass. The editor's loop makes two passes here (one that reads the
  counter changed, one that finds the confirm button down) and its log holds the two
  screens only: no \<open>Sleep_ms\<close>.
\<close>

theorem editor_loop_does_not_sleep:
  "map_option (log \<circ> snd) (update_one_setting ''frequency'' 10 200 50
      (session_confirm 0 [3] 0 cold_board))
   = Some [Show_one_setting ''frequency'' 10 200 50, Show_one_setting ''frequency'' 10 200 47]"
  by (simp add: update_one_setting_def session_confirm_def cold_board_def r_value_def
        edit_loop.simps edit_iter_def button_pressed_def pin_value_def samples_def
        set_samples_def show_one_setting_def emit_def clamp_def Let_def)

text \<open>
  The same difference in one pass of each loop that finds nothing pressed and the
  counter unchanged: the settings loop, the main loop and the test loop log
  \<open>Sleep_ms 50\<close> first, the editor's loop logs nothing.
\<close>

lemma poll_loops_first_effect:
  "map_option (log \<circ> snd \<circ> snd \<circ> snd) (settings_iter r w (one_idle_poll r s))
     = Some (log s @ [Sleep_ms 50])"
  "map_option (log \<circ> snd \<circ> snd) (main_iter r w (one_idle_poll r s))
     = Some (log s @ [Sleep_ms 50, Green_duty_u16 PWM_OFF, Blue_duty_u16 PWM_OFF])"
  "map_option (log \<circ> snd \<circ> snd) (test_iter r (one_idle_poll r s)) = Some (log s @ [Sleep_ms 50])"
  "map_option (log \<circ> snd) (edit_iter nm lo hi orig r v (one_idle_poll r s)) = Some (log s)"
  by (simp_all add: settings_iter_def main_iter_def test_iter_def edit_iter_def one_idle_poll_def
        button_pressed_def pin_value_def samples_def set_samples_def r_value_def
        sleep_ms_def pwm_blue_duty_u16_def pwm_green_duty_u16_def emit_def)

text \<open>
  C1, as the spec states it: whenever the servo is unpowered (on entry to the servo test,
  after a power-off toggle, on exit) the relay line is driven low, and while it is powered
  the line is driven high. The run below enters the test, powers the servo on and leaves:
  the relay pin is written 1, then 0, then 1, the opposite levels.
\<close>

theorem relay_level_counterexample:
  "map_option (relay_writes \<circ> log) (run_test power_on_then_back) = Some [1, 0, 1]
   \<and> map_option (relay_writes \<circ> log) (run_test power_on_then_back) \<noteq> Some [0, 1, 0]"
  by (simp add: run_test_def power_on_then_back_def cold_board_def r_value_def
        test_entry_def test_exit_def test_loop.simps test_iter_def toggle_power_def
        button_pressed_def pin_value_def samples_def
        set_samples_def show_test_details_def update_servo_def relay_value_def pwm_servo_freq_def
        pwm_green_duty_u16_def pwm_blue_duty_u16_def sleep_ms_def emit_def Let_def
        PWM_ON_def PWM_OFF_def)

text \<open>
  C1, amended: the relay line is driven high (1) whenever the servo is unpowered (on entry
  to the servo test, after a power-off toggle and on exit) and low (0) while
  \<open>g_powered\<close> holds. Entry, the toggle itself, every pass of the test loop and the exit
  keep the relay level opposite to \<open>g_powered\<close>.
\<close>

theorem relay_follows_power:
  "relay (test_entry s) = 1 \<and> \<not> g_powered (test_entry s)
   \<and> relay (toggle_power s) = (if g_powered s then 1 else 0)
   \<and> g_powered (toggle_power s) = (\<not> g_powered s)
   \<and> (relay_follows s \<and> test_iter r s = Some (k, r', s1) \<longrightarrow> relay_follows s1)
   \<and> (run_test s = Some s' \<longrightarrow> relay s' = 1 \<and> \<not> g_powered s')"
proof -
  have "relay (toggle_power s) = (if g_powered s then 1 else 0)"
    and "g_powered (toggle_power s) = (\<not> g_powered s)"
    by (simp_all add: toggle_power_def Let_def update_servo_def show_test_details_def
          relay_value_def pwm_green_duty_u16_def pwm_blue_duty_u16_def emit_def)
  moreover have "relay s' = 1 \<and> \<not> g_powered s'" if "run_test s = Some s'"
    using that by (rule run_test_cases) (simp add: test_exit_fields)
  moreover have "relay_follows s1" if "relay_follows s" "test_iter r s = Some (k, r', s1)"
    using that by (rule test_iter_follows [rotated])
  ultimately show ?thesis
    by (simp add: test_entry_fields)
qed



theorem relay_follows_power_witness:
  "relay_follows (test_entry power_on_then_back\<lparr>rotary_in := [0, 0]\<rparr>)
   \<and> (\<exists>s1. test_iter 0 (test_entry power_on_then_back\<lparr>rotary_in := [0, 0]\<rparr>)
          = Some (True, 0, s1) \<and> g_powered s1 \<and> relay s1 = 0)
   \<and> (\<exists>s'. run_test power_on_then_back = Some s' \<and> relay s' = 1 \<and> \<not> g_powered s')"
proof -
  let ?s = "test_entry power_on_then_back\<lparr>rotary_in := [0, 0]\<rparr>"
  have f: "relay_follows ?s"
    by (simp add: relay_follows_def test_entry_fields)
  have "\<exists>s1. test_iter 0 ?s = Some (True, 0, s1) \<and> g_powered s1"
    by (simp add: power_on_then_back_def cold_board_def r_value_def
        test_entry_def test_iter_def toggle_power_def
        button_pressed_def pin_value_def samples_def
        set_samples_def show_test_details_def update_servo_def relay_value_def pwm_servo_freq_def
        pwm_green_duty_u16_def pwm_blue_duty_u16_def sleep_ms_def emit_def Let_def)
  then obtain s1 where it: "test_iter 0 ?s = Some (True, 0, s1)" and p: "g_powered s1"
    by blast
  from relay_follows_power [where s = ?s and r = 0 and k = True and r' = 0 and ?s1.0 = s1] f it
  have "relay_follows s1" by blast
  with p have "relay s1 = 0" by (simp add: relay_follows_def)
  moreover obtain s' where run: "run_test power_on_then_back = Some s'"
    using power_on_then_back_runs by blast
  moreover from relay_follows_power [where s = power_on_then_back and s' = s'] run
  have "relay s' = 1 \<and> \<not> g_powered s'" by blast
  ultimately show ?thesis using f it p by blast
qed

text \<open>
  C6. Every entry to the servo test sets \<open>g_powered\<close> to false and \<open>g_percent\<close> to 50,
  disconnects the servo (relay level 1, the level the source writes under the comment
  "Disconnect the servo initially") and sets the servo PWM frequency to \<open>g_frequency\<close>.
  The loop is left only in a pass that found the yellow button pressed, and every return
  of \<open>run_test\<close> leaves \<open>g_powered\<close> false and the relay at the disconnecting level, the relay
  write being the last effect.
\<close>

theorem run_test_entry_exit:
  "g_powered (test_entry s) = False \<and> g_percent (test_entry s) = 50
   \<and> relay (test_entry s) = 1 \<and> servo_freq (test_entry s) = g_frequency s
   \<and> (test_iter r s = Some (False, r', s1)
        \<longrightarrow> (\<exists>s2. button_pressed Button_yellow (sleep_ms 50 s) = Some (True, s2)))
   \<and> (run_test s = Some s'
        \<longrightarrow> g_powered s' = False \<and> relay s' = 1
          \<and> (\<exists>es. log s' = log (test_entry s) @ es
                 @ [Blue_duty_u16 PWM_OFF, Green_duty_u16 PWM_OFF, Relay_value 1]))"
proof -
  have "\<exists>s2. button_pressed Button_yellow (sleep_ms 50 s) = Some (True, s2)"
    if "test_iter r s = Some (False, r', s1)"
    using that by (rule test_iter_cases) simp
  moreover have "g_powered s' = False \<and> relay s' = 1
          \<and> (\<exists>es. log s' = log (test_entry s) @ es
                 @ [Blue_duty_u16 PWM_OFF, Green_duty_u16 PWM_OFF, Relay_value 1])"
    if "run_test s = Some s'"
  proof -
    from that obtain r0 s1 s2 where r: "r_value (test_entry s) = Some (r0, s1)"
      and l: "test_loop r0 s1 = Some s2" and s': "s' = test_exit s2"
      by (rule run_test_cases)
    from test_loop_log [OF l] r_value_frame [OF r]
    obtain es where "log s2 = log (test_entry s) @ es" by auto
    with s' show ?thesis by (simp add: test_exit_fields)
  qed
  ultimately show ?thesis
    by (simp add: test_entry_fields)
qed

theorem run_test_entry_exit_witness:
  "(\<exists>s'. run_test power_on_then_back = Some s' \<and> g_powered s' = False \<and> relay s' = 1
      \<and> (\<exists>es. log s' = log (test_entry power_on_then_back) @ es
              @ [Blue_duty_u16 PWM_OFF, Green_duty_u16 PWM_OFF, Relay_value 1]))
   \<and> servo_freq (test_entry power_on_then_back) = 50
   \<and> g_percent (test_entry power_on_then_back) = 50"
proof -
  obtain s' where run: "run_test power_on_then_back = Some s'"
    using power_on_then_back_runs by blast
  from run_test_entry_exit [where s = power_on_then_back and s' = s'] run
  show ?thesis by (simp add: power_on_then_back_def cold_board_def)
qed






text \<open>
  C8. The settings are created at startup as (frequency, servo min, servo max) =
  (50, 2500, 8750). After any number of passes of the main loop, with whatever menu
  navigation and edit sessions they hold, frequency is in [10, 200], servo min in
  [0, 5000] and servo max in [5001, 10000]; every pass of the settings loop and of the main
  loop keeps the bounds. Each field is assigned only by its own \<open>set_\<close> function, which
  assigns what the editor session returned and leaves the other two alone; the editor
  itself, the servo test and the help screen change none of them.
\<close>

theorem settings_stay_in_bounds:
  "g_frequency (startup s) = 50 \<and> g_servo_min (startup s) = 2500
   \<and> g_servo_max (startup s) = 8750
   \<and> (main n s = Some (r, which, s') \<longrightarrow> settings_ok s')
   \<and> (settings_ok s \<and> settings_iter r which s = Some (k, r', which', s') \<longrightarrow> settings_ok s')
   \<and> (settings_ok s \<and> main_iter r which s = Some (r', which', s') \<longrightarrow> settings_ok s')
   \<and> (set_frequency s = Some s'
        \<longrightarrow> (\<exists>s1. update_one_setting ''frequency'' FREQUENCY_MIN FREQUENCY_MAX (g_frequency s) s
                    = Some (g_frequency s', s1)
                 \<and> g_servo_min s' = g_servo_min s1 \<and> g_servo_max s' = g_servo_max s1))
   \<and> (set_min s = Some s'
        \<longrightarrow> (\<exists>s1. update_one_setting ''servo min'' SERVO_MIN_MIN SERVO_MIN_MAX (g_servo_min s) s
                    = Some (g_servo_min s', s1)
                 \<and> g_frequency s' = g_frequency s1 \<and> g_servo_max s' = g_servo_max s1))
   \<and> (set_max s = Some s'
        \<longrightarrow> (\<exists>s1. update_one_setting ''servo max'' SERVO_MAX_MIN SERVO_MAX_MAX (g_servo_max s) s
                    = Some (g_servo_max s', s1)
                 \<and> g_frequency s' = g_frequency s1 \<and> g_servo_min s' = g_servo_min s1))
   \<and> (update_one_setting nm lo hi v s = Some (x, s') \<longrightarrow> same_settings s s')
   \<and> (run_test s = Some s' \<longrightarrow> same_settings s s')
   \<and> (help_screen s = Some s' \<longrightarrow> same_settings s s')"
proof -
  have f: "\<exists>s1. update_one_setting ''frequency'' FREQUENCY_MIN FREQUENCY_MAX (g_frequency s) s
                    = Some (g_frequency s', s1)
                 \<and> g_servo_min s' = g_servo_min s1 \<and> g_servo_max s' = g_servo_max s1"
    if "set_frequency s = Some s'"
    using that
    by (cases "update_one_setting ''frequency'' FREQUENCY_MIN FREQUENCY_MAX (g_frequency s) s")
       (auto simp: set_frequency_def)
  have mi: "\<exists>s1. update_one_setting ''servo min'' SERVO_MIN_MIN SERVO_MIN_MAX (g_servo_min s) s
                    = Some (g_servo_min s', s1)
                 \<and> g_frequency s' = g_frequency s1 \<and> g_servo_max s' = g_servo_max s1"
    if "set_min s = Some s'"
    using that
    by (cases "update_one_setting ''servo min'' SERVO_MIN_MIN SERVO_MIN_MAX (g_servo_min s) s")
       (auto simp: set_min_def)
  have ma: "\<exists>s1. update_one_setting ''servo max'' SERVO_MAX_MIN SERVO_MAX_MAX (g_servo_max s) s
                    = Some (g_servo_max s', s1)
                 \<and> g_frequency s' = g_frequency s1 \<and> g_servo_min s' = g_servo_min s1"
    if "set_max s = Some s'"
    using that
    by (cases "update_one_setting ''servo max'' SERVO_MAX_MIN SERVO_MAX_MAX (g_servo_max s) s")
       (auto simp: set_max_def)
  have u: "same_settings s s'" if "update_one_setting nm lo hi v s = Some (x, s')"
  proof -
    from that obtain r0 s1 where r: "r_value s = Some (r0, s1)"
      and l: "edit_loop nm lo hi v r0 v (show_one_setting nm lo hi v s1) = Some (x, s')"
      by (cases "r_value s") (auto simp: update_one_setting_def)
    have "same_settings s (show_one_setting nm lo hi v s1)"
      using r_value_same [OF r] by (simp add: same_settings_def show_one_setting_def emit_def)
    then show ?thesis
      using edit_loop_same [OF l] by (rule same_settings_trans)
  qed
  from f mi ma u show ?thesis
    using main_ok settings_iter_ok main_iter_ok run_test_same help_screen_same
    by (simp add: startup_settings) blast
qed

theorem settings_stay_in_bounds_witness:
  "\<exists>r w s'. main 2 edit_frequency_run = Some (r, w, s') \<and> settings_ok s' \<and> g_frequency s' = 200"
proof -
  obtain r w s' where m: "main 2 edit_frequency_run = Some (r, w, s')"
    using edit_frequency_run_result by (cases "main 2 edit_frequency_run") auto
  with edit_frequency_run_result have "g_frequency s' = 200" by simp
  moreover from settings_stay_in_bounds [where n = 2 and s = edit_frequency_run and r = r
      and which = w and s' = s'] m
  have "settings_ok s'" by blast
  ultimately show ?thesis using m by blast
qed

end
